theory Spec2Isabelle
  imports Main "HOL-Library.Finite_Map"
begin

section \<open>The page cache of amfora (package cache)\<close>

subsection \<open>Pages\<close>

text \<open>
  Modelled from the spec: the type \<open>structs.Page\<close> and its method \<open>Size()\<close> are
  declared outside the sources at hand; the cache only reads \<open>p.URL\<close>, \<open>p.Size()\<close> and
  \<open>p.MadeAt\<close>. Following the spec's Document, a page has an identifier, a raw content, a
  size in bytes and a creation timestamp. \<open>Bytes\<close> is the value \<open>p.Size()\<close> returns: a
  byte count, hence a natural number, and fixed while the page sits in the cache (the
  cache stores pointers, and a caller that changes a cached page behind the cache's back
  is outside this model). \<open>MadeAt\<close> is an instant in nanoseconds.
\<close>

record page =
  URL :: string
  Raw :: string
  Bytes :: nat
  MadeAt :: int

definition Size :: "page \<Rightarrow> int" where
  "Size p = int (Bytes p)"

subsection \<open>The state of the package\<close>

text \<open>
  The package-level variables \<open>pages\<close>, \<open>urls\<close>, \<open>maxPages\<close>, \<open>maxSize\<close> and
  \<open>timeout\<close>. A Go map is a finite map. Counts and sizes are Go \<open>int\<close>s that stay far
  below \<open>2^63\<close> (they count objects and bytes in memory), so they are unbounded integers
  here; \<open>timeout\<close> is a \<open>time.Duration\<close>, a signed 64-bit number of nanoseconds, and
  the one place where it is computed writes the wrap-around out.
\<close>

record cache =
  pages :: "(string, page) fmap"
  urls :: "string list"
  maxPages :: int
  maxSize :: int
  timeout :: int

definition init :: cache where
  "init = \<lparr>pages = fmempty, urls = [], maxPages = 0, maxSize = 0, timeout = 0\<rparr>"

text \<open>A run-time panic of Go: an index expression out of range.\<close>

datatype panic = IndexOutOfRange

subsection \<open>Setting the limits\<close>

definition SetMaxPages :: "int \<Rightarrow> cache \<Rightarrow> cache" where
  "SetMaxPages m c = c\<lparr>maxPages := m\<rparr>"

definition SetMaxSize :: "int \<Rightarrow> cache \<Rightarrow> cache" where
  "SetMaxSize m c = c\<lparr>maxSize := m\<rparr>"

definition Second :: int where
  "Second = 1000000000"

text \<open>The value of a signed 64-bit result: Go's integer arithmetic wraps around.\<close>

definition wrap64 :: "int \<Rightarrow> int" where
  "wrap64 x = (x + 2 ^ 63) mod 2 ^ 64 - 2 ^ 63"

definition SetTimeout :: "int \<Rightarrow> cache \<Rightarrow> cache" where
  "SetTimeout t c =
     (if t \<le> 0 then c\<lparr>timeout := 0\<rparr>
      else c\<lparr>timeout := wrap64 (t * Second)\<rparr>)"

subsection \<open>Removing from the order record\<close>

text \<open>
  \<open>removeIndex\<close> swaps the element at \<open>i\<close> with the last one and cuts the last one off.
  Both index expressions panic when out of range.
\<close>

definition removeIndex :: "string list \<Rightarrow> nat \<Rightarrow> panic + string list" where
  "removeIndex s i =
     (if i < length s
      then Inr (butlast (s[length s - 1 := s ! i, i := s ! (length s - 1)]))
      else Inl IndexOutOfRange)"

text \<open>The loop of \<open>removeURL\<close>, from index \<open>i\<close> on: the first match is removed.\<close>

function removeURL_from :: "nat \<Rightarrow> string \<Rightarrow> string list \<Rightarrow> panic + string list" where
  "removeURL_from i url us =
     (if i < length us
      then (if us ! i = url then removeIndex us i else removeURL_from (Suc i) url us)
      else Inr us)"
  by pat_completeness auto
termination
  by (relation "measure (\<lambda>(i, url, us). length us - i)") auto

declare removeURL_from.simps [simp del]

definition removeURL :: "string \<Rightarrow> cache \<Rightarrow> panic + cache" where
  "removeURL url c =
     (case removeURL_from 0 url (urls c) of
        Inl e \<Rightarrow> Inl e
      | Inr us \<Rightarrow> Inr (c\<lparr>urls := us\<rparr>))"

subsection \<open>The operations\<close>

definition NumPages :: "cache \<Rightarrow> int" where
  "NumPages c = int (card (fmdom' (pages c)))"

definition SizePages :: "cache \<Rightarrow> int" where
  "SizePages c = (\<Sum>u \<in> fmdom' (pages c). Size (the (fmlookup (pages c) u)))"

definition RemovePage :: "string \<Rightarrow> cache \<Rightarrow> panic + cache" where
  "RemovePage url c = removeURL url (c\<lparr>pages := fmdrop url (pages c)\<rparr>)"

definition ClearPages :: "cache \<Rightarrow> cache" where
  "ClearPages c = c\<lparr>pages := fmempty, urls := []\<rparr>"

text \<open>
  The first loop of \<open>AddPage\<close>: while the cache holds \<open>maxPages\<close> pages or more,
  remove the page at the head of \<open>urls\<close>. Reading \<open>urls[0]\<close> of an empty slice panics.
\<close>

function evict_pages :: "cache \<Rightarrow> panic + cache" where
  "evict_pages c =
     (if NumPages c \<ge> maxPages c \<and> maxPages c > 0
      then (case urls c of
              [] \<Rightarrow> Inl IndexOutOfRange
            | u # _ \<Rightarrow> (case RemovePage u c of
                          Inl e \<Rightarrow> Inl e
                        | Inr c' \<Rightarrow> evict_pages c'))
      else Inr c)"
  by pat_completeness auto
termination
proof (relation "measure (\<lambda>c. length (urls c))")
  show "wf (measure (\<lambda>c. length (urls c)))"
    by simp
next
  fix c :: cache and u us c'
  assume u: "urls c = u # us" and r: "RemovePage u c = Inr c'"
  have "removeURL_from 0 u (u # us) = removeIndex (u # us) 0"
    by (simp add: removeURL_from.simps [of 0])
  moreover have "length ys = length us" if "removeIndex (u # us) 0 = Inr ys" for ys
    using that by (auto simp: removeIndex_def simp del: list_update.simps)
  ultimately have "length (urls c') < length (urls c)"
    using u r by (auto simp: RemovePage_def removeURL_def split: sum.splits)
  then show "(c', c) \<in> measure (\<lambda>c. length (urls c))"
    by simp
qed

text \<open>The second loop: the same while the cache and the new page exceed \<open>maxSize\<close>.\<close>

function evict_size :: "page \<Rightarrow> cache \<Rightarrow> panic + cache" where
  "evict_size p c =
     (if SizePages c + Size p > maxSize c \<and> maxSize c > 0
      then (case urls c of
              [] \<Rightarrow> Inl IndexOutOfRange
            | u # _ \<Rightarrow> (case RemovePage u c of
                          Inl e \<Rightarrow> Inl e
                        | Inr c' \<Rightarrow> evict_size p c'))
      else Inr c)"
  by pat_completeness auto
termination
proof (relation "measure (\<lambda>(p, c). length (urls c))")
  show "wf (measure (\<lambda>(p :: page, c). length (urls c)))"
    by simp
next
  fix p :: page and c :: cache and u us c'
  assume u: "urls c = u # us" and r: "RemovePage u c = Inr c'"
  have "removeURL_from 0 u (u # us) = removeIndex (u # us) 0"
    by (simp add: removeURL_from.simps [of 0])
  moreover have "length ys = length us" if "removeIndex (u # us) 0 = Inr ys" for ys
    using that by (auto simp: removeIndex_def simp del: list_update.simps)
  ultimately have "length (urls c') < length (urls c)"
    using u r by (auto simp: RemovePage_def removeURL_def split: sum.splits)
  then show "((p, c'), (p, c)) \<in> measure (\<lambda>(p, c). length (urls c))"
    by simp
qed

declare evict_pages.simps [simp del] evict_size.simps [simp del]

definition AddPage :: "page \<Rightarrow> cache \<Rightarrow> panic + cache" where
  "AddPage p c =
     (if URL p = [] then Inr c
      else if Size p > maxSize c \<and> maxSize c > 0 then Inr c
      else (case evict_pages c of
              Inl e \<Rightarrow> Inl e
            | Inr c1 \<Rightarrow>
               (case evict_size p c1 of
                  Inl e \<Rightarrow> Inl e
                | Inr c2 \<Rightarrow>
                   (case removeURL (URL p) (c2\<lparr>pages := fmupd (URL p) p (pages c2)\<rparr>) of
                      Inl e \<Rightarrow> Inl e
                    | Inr c3 \<Rightarrow> Inr (c3\<lparr>urls := urls c3 @ [URL p]\<rparr>)))))"

text \<open>
  \<open>time.Since(t)\<close> at the instant \<open>now\<close>: the difference of the two instants as a
  \<open>time.Duration\<close>, which Go saturates at the ends of the 64-bit range.
\<close>

definition Since :: "int \<Rightarrow> int \<Rightarrow> int" where
  "Since now t = max (- (2 ^ 63)) (min (2 ^ 63 - 1) (now - t))"

definition GetPage :: "int \<Rightarrow> string \<Rightarrow> cache \<Rightarrow> page option \<times> bool" where
  "GetPage now url c =
     (case fmlookup (pages c) url of
        Some p \<Rightarrow>
          if timeout c = 0 \<or> Since now (MadeAt p) < timeout c then (Some p, True)
          else (None, False)
      | None \<Rightarrow> (None, False))"

subsection \<open>Runs of the package and its invariants\<close>

text \<open>A sequence of \<open>AddPage\<close> calls, one after the other; a panic ends the run.\<close>

fun AddPages :: "page list \<Rightarrow> cache \<Rightarrow> panic + cache" where
  "AddPages [] c = Inr c"
| "AddPages (p # ps) c =
     (case AddPage p c of Inl e \<Rightarrow> Inl e | Inr c' \<Rightarrow> AddPages ps c')"

text \<open>The states the package can be in: from the initial values, by its exported functions.\<close>

inductive reachable :: "cache \<Rightarrow> bool" where
  r_init: "reachable init"
| r_SetMaxPages: "reachable c \<Longrightarrow> reachable (SetMaxPages m c)"
| r_SetMaxSize: "reachable c \<Longrightarrow> reachable (SetMaxSize m c)"
| r_SetTimeout: "reachable c \<Longrightarrow> reachable (SetTimeout t c)"
| r_AddPage: "reachable c \<Longrightarrow> AddPage p c = Inr c' \<Longrightarrow> reachable c'"
| r_RemovePage: "reachable c \<Longrightarrow> RemovePage url c = Inr c' \<Longrightarrow> reachable c'"
| r_ClearPages: "reachable c \<Longrightarrow> reachable (ClearPages c)"

text \<open>The order record lists the keys of the entry table, each once.\<close>

definition cache_inv :: "cache \<Rightarrow> bool" where
  "cache_inv c \<longleftrightarrow> distinct (urls c) \<and> set (urls c) = fmdom' (pages c)"

definition same_limits :: "cache \<Rightarrow> cache \<Rightarrow> bool" where
  "same_limits c c' \<longleftrightarrow>
     maxPages c' = maxPages c \<and> maxSize c' = maxSize c \<and> timeout c' = timeout c"

text \<open>The two bounds, each in force only when its limit is positive.\<close>

definition within_limits :: "cache \<Rightarrow> bool" where
  "within_limits c \<longleftrightarrow>
     (maxPages c > 0 \<longrightarrow> NumPages c \<le> maxPages c) \<and>
     (maxSize c > 0 \<longrightarrow> SizePages c \<le> maxSize c)"

subsection \<open>The calls on the mutex\<close>

text \<open>
  Every exported function that touches \<open>pages\<close> or \<open>urls\<close> calls the package's
  \<open>sync.RWMutex\<close>. The functions below give, for one call run on its own, the calls it
  makes on \<open>mu\<close>, in order; a deferred \<open>Unlock\<close> is the last call of its function.
  \<open>AddPage\<close> makes its calls through \<open>NumPages\<close>, \<open>SizePages\<close> and \<open>RemovePage\<close>
  in its two loops, and then itself.
\<close>

datatype mu_call = Lock | Unlock | RLock | RUnlock

definition NumPages_mu :: "mu_call list" where
  "NumPages_mu = [RLock, RUnlock]"

definition SizePages_mu :: "mu_call list" where
  "SizePages_mu = [RLock, RUnlock]"

definition GetPage_mu :: "mu_call list" where
  "GetPage_mu = [RLock, RUnlock]"

definition RemovePage_mu :: "mu_call list" where
  "RemovePage_mu = [Lock, Unlock]"

definition ClearPages_mu :: "mu_call list" where
  "ClearPages_mu = [Lock, Unlock]"

function evict_pages_mu :: "cache \<Rightarrow> mu_call list" where
  "evict_pages_mu c =
     NumPages_mu @
     (if NumPages c \<ge> maxPages c \<and> maxPages c > 0
      then (case urls c of
              [] \<Rightarrow> []
            | u # _ \<Rightarrow> RemovePage_mu @
                       (case RemovePage u c of
                          Inl e \<Rightarrow> []
                        | Inr c' \<Rightarrow> evict_pages_mu c'))
      else [])"
  by pat_completeness auto
termination
proof (relation "measure (\<lambda>c. length (urls c))")
  show "wf (measure (\<lambda>c. length (urls c)))"
    by simp
next
  fix c :: cache and u us c'
  assume u: "urls c = u # us" and r: "RemovePage u c = Inr c'"
  have "removeURL_from 0 u (u # us) = removeIndex (u # us) 0"
    by (simp add: removeURL_from.simps [of 0])
  moreover have "length ys = length us" if "removeIndex (u # us) 0 = Inr ys" for ys
    using that by (auto simp: removeIndex_def simp del: list_update.simps)
  ultimately have "length (urls c') < length (urls c)"
    using u r by (auto simp: RemovePage_def removeURL_def split: sum.splits)
  then show "(c', c) \<in> measure (\<lambda>c. length (urls c))"
    by simp
qed

function evict_size_mu :: "page \<Rightarrow> cache \<Rightarrow> mu_call list" where
  "evict_size_mu p c =
     SizePages_mu @
     (if SizePages c + Size p > maxSize c \<and> maxSize c > 0
      then (case urls c of
              [] \<Rightarrow> []
            | u # _ \<Rightarrow> RemovePage_mu @
                       (case RemovePage u c of
                          Inl e \<Rightarrow> []
                        | Inr c' \<Rightarrow> evict_size_mu p c'))
      else [])"
  by pat_completeness auto
termination
proof (relation "measure (\<lambda>(p, c). length (urls c))")
  show "wf (measure (\<lambda>(p :: page, c). length (urls c)))"
    by simp
next
  fix p :: page and c :: cache and u us c'
  assume u: "urls c = u # us" and r: "RemovePage u c = Inr c'"
  have "removeURL_from 0 u (u # us) = removeIndex (u # us) 0"
    by (simp add: removeURL_from.simps [of 0])
  moreover have "length ys = length us" if "removeIndex (u # us) 0 = Inr ys" for ys
    using that by (auto simp: removeIndex_def simp del: list_update.simps)
  ultimately have "length (urls c') < length (urls c)"
    using u r by (auto simp: RemovePage_def removeURL_def split: sum.splits)
  then show "((p, c'), (p, c)) \<in> measure (\<lambda>(p, c). length (urls c))"
    by simp
qed

declare evict_pages_mu.simps [simp del] evict_size_mu.simps [simp del]

definition AddPage_mu :: "page \<Rightarrow> cache \<Rightarrow> mu_call list" where
  "AddPage_mu p c =
     (if URL p = [] then []
      else if Size p > maxSize c \<and> maxSize c > 0 then []
      else evict_pages_mu c @
           (case evict_pages c of
              Inl e \<Rightarrow> []
            | Inr c1 \<Rightarrow>
                evict_size_mu p c1 @
                (case evict_size p c1 of
                   Inl e \<Rightarrow> []
                 | Inr c2 \<Rightarrow> [Lock, Unlock])))"

subsection \<open>Two callers of \<open>AddPage\<close> at once\<close>

text \<open>
  The package is called from several goroutines. What one caller of \<open>AddPage\<close> does
  falls into steps between which another caller can run: the two guards on the page;
  each test of a loop condition (\<open>NumPages\<close> and \<open>SizePages\<close> hold the shared lock
  while they read, and release it before they return); the read of \<open>urls[0]\<close>, with
  no lock held; each call of \<open>RemovePage\<close>, under the exclusive lock; and the final
  write under the exclusive lock. A position says which step comes next.
\<close>

datatype pc =
  Guards | PagesTest | PagesHead | PagesRemove string
  | SizeTest | SizeHead | SizeRemove string | Write | Returned

fun AddPage_step :: "page \<Rightarrow> pc \<Rightarrow> cache \<Rightarrow> panic + (pc \<times> cache)" where
  "AddPage_step p Guards c =
     (if URL p = [] then Inr (Returned, c)
      else if Size p > maxSize c \<and> maxSize c > 0 then Inr (Returned, c)
      else Inr (PagesTest, c))"
| "AddPage_step p PagesTest c =
     (if NumPages c \<ge> maxPages c \<and> maxPages c > 0 then Inr (PagesHead, c)
      else Inr (SizeTest, c))"
| "AddPage_step p PagesHead c =
     (case urls c of [] \<Rightarrow> Inl IndexOutOfRange | u # _ \<Rightarrow> Inr (PagesRemove u, c))"
| "AddPage_step p (PagesRemove u) c =
     (case RemovePage u c of Inl e \<Rightarrow> Inl e | Inr c' \<Rightarrow> Inr (PagesTest, c'))"
| "AddPage_step p SizeTest c =
     (if SizePages c + Size p > maxSize c \<and> maxSize c > 0 then Inr (SizeHead, c)
      else Inr (Write, c))"
| "AddPage_step p SizeHead c =
     (case urls c of [] \<Rightarrow> Inl IndexOutOfRange | u # _ \<Rightarrow> Inr (SizeRemove u, c))"
| "AddPage_step p (SizeRemove u) c =
     (case RemovePage u c of Inl e \<Rightarrow> Inl e | Inr c' \<Rightarrow> Inr (SizeTest, c'))"
| "AddPage_step p Write c =
     (case removeURL (URL p) (c\<lparr>pages := fmupd (URL p) p (pages c)\<rparr>) of
        Inl e \<Rightarrow> Inl e
      | Inr c3 \<Rightarrow> Inr (Returned, c3\<lparr>urls := urls c3 @ [URL p]\<rparr>))"
| "AddPage_step p Returned c = Inr (Returned, c)"

text \<open>
  Two callers, with pages \<open>p\<close> and \<open>q\<close>, on the one cache. The schedule says who takes
  the next step: \<open>True\<close> the caller with \<open>p\<close>, \<open>False\<close> the caller with \<open>q\<close>. A panic
  of either ends the run.
\<close>

fun interleave ::
  "page \<Rightarrow> page \<Rightarrow> bool list \<Rightarrow> pc \<times> pc \<times> cache \<Rightarrow> panic + (pc \<times> pc \<times> cache)" where
  "interleave p q [] k = Inr k"
| "interleave p q (first # sched) (i, j, c) =
     (if first
      then (case AddPage_step p i c of
              Inl e \<Rightarrow> Inl e
            | Inr (i', c') \<Rightarrow> interleave p q sched (i', j, c'))
      else (case AddPage_step q j c of
              Inl e \<Rightarrow> Inl e
            | Inr (j', c') \<Rightarrow> interleave p q sched (i, j', c')))"

text \<open>A sample page for the concrete runs below: an identifier and a size.\<close>

abbreviation doc :: "string \<Rightarrow> nat \<Rightarrow> page" where
  "doc u n \<equiv> \<lparr>URL = u, Raw = [], Bytes = n, MadeAt = 0\<rparr>"

text \<open>The definitions a concrete run is evaluated with.\<close>

lemmas cache_eval =
  AddPage_def init_def SetMaxPages_def SetMaxSize_def SetTimeout_def Size_def
  evict_pages.simps evict_size.simps NumPages_def SizePages_def removeURL_def
  removeURL_from.simps RemovePage_def removeIndex_def ClearPages_def GetPage_def
  Since_def Second_def wrap64_def

section \<open>Properties\<close>

subsection \<open>The order record under removal\<close>

lemma removeIndex_eq:
  "i < length s \<Longrightarrow> removeIndex s i = Inr ((butlast s)[i := last s])"
  by (cases s rule: rev_cases)
     (simp_all add: removeIndex_def butlast_list_update nth_append list_update_beyond)

lemma removeURL_from_total: "\<exists>ys. removeURL_from i url us = Inr ys"
proof (induction i url us rule: removeURL_from.induct)
  case (1 i url us)
  then show ?case
    by (subst removeURL_from.simps) (auto simp: removeIndex_eq)
qed

lemma swap_remove_distinct:
  assumes "distinct s" and "i < length s"
  shows "distinct ((butlast s)[i := last s]) \<and> set ((butlast s)[i := last s]) = set s - {s ! i}"
proof (cases s rule: rev_cases)
  case Nil
  with assms show ?thesis by simp
next
  case (snoc xs l)
  show ?thesis
  proof (cases "i < length xs")
    case True
    with assms snoc show ?thesis
      by (auto simp: nth_append set_update_distinct distinct_list_update)
  next
    case False
    with assms snoc have "i = length xs" by simp
    with assms snoc show ?thesis by (auto simp: list_update_beyond)
  qed
qed

lemma removeURL_from_distinct:
  "distinct us \<Longrightarrow> url \<notin> set (take i us) \<Longrightarrow> removeURL_from i url us = Inr ys \<Longrightarrow>
   distinct ys \<and> set ys = set us - {url}"
proof (induction i url us rule: removeURL_from.induct)
  case (1 i url us)
  show ?case
  proof (cases "i < length us")
    case False
    with "1.prems" show ?thesis
      by (simp add: removeURL_from.simps [of i])
  next
    case True
    show ?thesis
    proof (cases "us ! i = url")
      case True
      with \<open>i < length us\<close> "1.prems" show ?thesis
        using swap_remove_distinct [of us i]
        by (simp add: removeURL_from.simps [of i] removeIndex_eq)
    next
      case False
      with \<open>i < length us\<close> "1.prems" have "removeURL_from (Suc i) url us = Inr ys"
        by (simp add: removeURL_from.simps [of i])
      moreover from False \<open>i < length us\<close> "1.prems" have "url \<notin> set (take (Suc i) us)"
        by (simp add: take_Suc_conv_app_nth)
      ultimately show ?thesis
        using "1.IH" [OF True False] "1.prems" by simp
    qed
  qed
qed

lemma removeURL_Inr:
  "removeURL url c = Inr c' \<longleftrightarrow> (\<exists>us. removeURL_from 0 url (urls c) = Inr us \<and> c' = c\<lparr>urls := us\<rparr>)"
  by (cases "removeURL_from 0 url (urls c)") (auto simp: removeURL_def)

lemma removeURL_frame:
  "removeURL url c = Inr c' \<Longrightarrow> pages c' = pages c \<and> same_limits c c'"
  by (auto simp: removeURL_Inr same_limits_def)

lemma removeURL_total: "\<exists>c'. removeURL url c = Inr c'"
  using removeURL_from_total [of 0 url "urls c"] by (auto simp: removeURL_Inr)

lemma removeURL_distinct:
  "distinct (urls c) \<Longrightarrow> removeURL url c = Inr c' \<Longrightarrow>
   distinct (urls c') \<and> set (urls c') = set (urls c) - {url}"
  using removeURL_from_distinct [of "urls c" url 0]
  by (auto simp: removeURL_Inr)

lemma RemovePage_frame:
  "RemovePage url c = Inr c' \<Longrightarrow> pages c' = fmdrop url (pages c) \<and> same_limits c c'"
  by (auto simp: RemovePage_def removeURL_Inr same_limits_def)

lemma RemovePage_total: "\<exists>c'. RemovePage url c = Inr c'"
  unfolding RemovePage_def by (rule removeURL_total)

lemma RemovePage_inv:
  assumes "cache_inv c" and "RemovePage url c = Inr c'"
  shows "cache_inv c'"
proof -
  let ?d = "c\<lparr>pages := fmdrop url (pages c)\<rparr>"
  from assms(2) have r: "removeURL url ?d = Inr c'"
    by (simp add: RemovePage_def)
  from assms(1) have "distinct (urls ?d)"
    by (simp add: cache_inv_def)
  from removeURL_distinct [OF this r] removeURL_frame [OF r] assms(1)
  show ?thesis
    by (simp add: cache_inv_def)
qed

subsection \<open>Counting and measuring the entry table\<close>

lemma same_limits_refl: "same_limits c c"
  by (simp add: same_limits_def)

lemma same_limits_trans: "same_limits a b \<Longrightarrow> same_limits b c \<Longrightarrow> same_limits a c"
  by (simp add: same_limits_def)

lemma Size_nonneg: "0 \<le> Size p"
  by (simp add: Size_def)

lemma SizePages_nonneg: "0 \<le> SizePages c"
  by (simp add: SizePages_def sum_nonneg Size_nonneg)

lemma fmsubset_dom': "m \<subseteq>\<^sub>f n \<Longrightarrow> fmdom' m \<subseteq> fmdom' n"
  by (metis fmlookup_dom'_iff fmsubset.rep_eq map_le_def dom_fmlookup subsetI)

lemma fmsubset_lookup: "m \<subseteq>\<^sub>f n \<Longrightarrow> u \<in> fmdom' m \<Longrightarrow> fmlookup m u = fmlookup n u"
  by (simp add: fmsubset.rep_eq map_le_def)

lemma NumPages_mono: "pages c' \<subseteq>\<^sub>f pages c \<Longrightarrow> NumPages c' \<le> NumPages c"
  by (simp add: NumPages_def card_mono fmsubset_dom')

lemma SizePages_mono:
  assumes "pages c' \<subseteq>\<^sub>f pages c"
  shows "SizePages c' \<le> SizePages c"
proof -
  have "SizePages c' = (\<Sum>u \<in> fmdom' (pages c'). Size (the (fmlookup (pages c) u)))"
    unfolding SizePages_def by (rule sum.cong) (simp_all add: fmsubset_lookup [OF assms])
  also have "\<dots> \<le> SizePages c"
    unfolding SizePages_def
    by (rule sum_mono2) (simp_all add: fmsubset_dom' [OF assms] Size_nonneg)
  finally show ?thesis .
qed

lemma SizePages_empty_iff: "fmdom' (pages c) = {} \<Longrightarrow> SizePages c = 0"
  by (simp add: SizePages_def)

lemma NumPages_pos_iff: "0 < NumPages c \<longleftrightarrow> fmdom' (pages c) \<noteq> {}"
  by (simp add: NumPages_def card_gt_0_iff)

lemma NumPages_fmupd:
  "pages c' = fmupd u p (pages c) \<Longrightarrow>
   NumPages c' = (if u \<in> fmdom' (pages c) then NumPages c else NumPages c + 1)"
  by (simp add: NumPages_def insert_absorb)

lemma SizePages_fmupd:
  assumes "pages c' = fmupd u p (pages c)"
  shows "SizePages c' =
     SizePages c + Size p - (case fmlookup (pages c) u of None \<Rightarrow> 0 | Some q \<Rightarrow> Size q)"
proof -
  let ?m = "pages c"
  let ?A = "fmdom' ?m - {u}"
  have fin: "finite ?A" by simp
  have "SizePages c' = (\<Sum>v \<in> insert u ?A. Size (the (fmlookup (fmupd u p ?m) v)))"
    by (simp add: SizePages_def assms)
  also have "\<dots> = Size p + (\<Sum>v \<in> ?A. Size (the (fmlookup (fmupd u p ?m) v)))"
    by (subst sum.insert) simp_all
  also have "(\<Sum>v \<in> ?A. Size (the (fmlookup (fmupd u p ?m) v))) = (\<Sum>v \<in> ?A. Size (the (fmlookup ?m v)))"
    by (rule sum.cong) auto
  finally have 1: "SizePages c' = Size p + (\<Sum>v \<in> ?A. Size (the (fmlookup ?m v)))" .
  show ?thesis
  proof (cases "fmlookup ?m u")
    case None
    then have "?A = fmdom' ?m" by (auto simp: fmlookup_dom'_iff)
    with 1 None show ?thesis by (simp add: SizePages_def)
  next
    case (Some q)
    then have "u \<in> fmdom' ?m" by (simp add: fmlookup_dom'_iff)
    then have "SizePages c = Size q + (\<Sum>v \<in> ?A. Size (the (fmlookup ?m v)))"
      unfolding SizePages_def using Some by (subst sum.remove [of _ u]) simp_all
    with 1 Some show ?thesis by simp
  qed
qed

subsection \<open>The eviction loops\<close>

lemma fmsubset_same: "m \<subseteq>\<^sub>f m"
  by (simp add: fmsubset.rep_eq)

lemma fmsubset_chain: "a \<subseteq>\<^sub>f b \<Longrightarrow> b \<subseteq>\<^sub>f c \<Longrightarrow> a \<subseteq>\<^sub>f c"
  by (metis fmsubset.rep_eq map_le_trans)

lemma cache_inv_head:
  "cache_inv c \<Longrightarrow> fmdom' (pages c) \<noteq> {} \<Longrightarrow> \<exists>u us. urls c = u # us"
  by (cases "urls c") (auto simp: cache_inv_def)

lemma evict_pages_ok:
  "cache_inv c \<Longrightarrow>
   \<exists>c'. evict_pages c = Inr c' \<and> cache_inv c' \<and> same_limits c c' \<and>
        pages c' \<subseteq>\<^sub>f pages c \<and> (maxPages c > 0 \<longrightarrow> NumPages c' < maxPages c)"
proof (induction c rule: evict_pages.induct)
  case (1 c)
  show ?case
  proof (cases "NumPages c \<ge> maxPages c \<and> maxPages c > 0")
    case False
    then have "evict_pages c = Inr c"
      by (auto simp: evict_pages.simps [of c])
    with False "1.prems" show ?thesis
      by (auto simp: same_limits_refl fmsubset_same)
  next
    case True
    then have "0 < NumPages c" by simp
    then have "fmdom' (pages c) \<noteq> {}" by (simp add: NumPages_pos_iff)
    with "1.prems" obtain u us where u: "urls c = u # us"
      using cache_inv_head by blast
    obtain b where b: "RemovePage u c = Inr b"
      using RemovePage_total by blast
    have invb: "cache_inv b"
      using RemovePage_inv [OF "1.prems" b] .
    from RemovePage_frame [OF b] have fb: "pages b = fmdrop u (pages c)" "same_limits c b"
      by simp_all
    from "1.IH" [OF True u b invb] obtain c' where c':
      "evict_pages b = Inr c'" "cache_inv c'" "same_limits b c'" "pages c' \<subseteq>\<^sub>f pages b"
      "maxPages b > 0 \<longrightarrow> NumPages c' < maxPages b"
      by blast
    have "evict_pages c = Inr c'"
      using True u b c'(1) by (simp add: evict_pages.simps [of c])
    moreover have "pages c' \<subseteq>\<^sub>f pages c"
      using c'(4) fb(1) fmsubset_drop [of u "pages c"]
      by (auto intro: fmsubset_chain)
    moreover have "same_limits c c'"
      using fb(2) c'(3) by (rule same_limits_trans)
    moreover have "maxPages c > 0 \<longrightarrow> NumPages c' < maxPages c"
      using c'(5) fb(2) by (simp add: same_limits_def)
    ultimately show ?thesis
      using c'(2) by blast
  qed
qed

lemma evict_size_ok:
  "cache_inv c \<Longrightarrow> \<not> (Size p > maxSize c \<and> maxSize c > 0) \<Longrightarrow>
   \<exists>c'. evict_size p c = Inr c' \<and> cache_inv c' \<and> same_limits c c' \<and>
        pages c' \<subseteq>\<^sub>f pages c \<and> (maxSize c > 0 \<longrightarrow> SizePages c' + Size p \<le> maxSize c)"
proof (induction p c rule: evict_size.induct)
  case (1 p c)
  show ?case
  proof (cases "SizePages c + Size p > maxSize c \<and> maxSize c > 0")
    case False
    then have "evict_size p c = Inr c"
      by (auto simp: evict_size.simps [of p c])
    with False "1.prems" show ?thesis
      by (auto simp: same_limits_refl fmsubset_same)
  next
    case True
    with "1.prems"(2) have "SizePages c \<noteq> 0" by auto
    then have "fmdom' (pages c) \<noteq> {}"
      using SizePages_empty_iff by blast
    with "1.prems" obtain u us where u: "urls c = u # us"
      using cache_inv_head by blast
    obtain b where b: "RemovePage u c = Inr b"
      using RemovePage_total by blast
    have invb: "cache_inv b"
      using RemovePage_inv [OF "1.prems"(1) b] .
    from RemovePage_frame [OF b] have fb: "pages b = fmdrop u (pages c)" "same_limits c b"
      by simp_all
    from fb(2) "1.prems"(2) have "\<not> (Size p > maxSize b \<and> maxSize b > 0)"
      by (simp add: same_limits_def)
    from "1.IH" [OF True u b invb this] obtain c' where c':
      "evict_size p b = Inr c'" "cache_inv c'" "same_limits b c'" "pages c' \<subseteq>\<^sub>f pages b"
      "maxSize b > 0 \<longrightarrow> SizePages c' + Size p \<le> maxSize b"
      by blast
    have "evict_size p c = Inr c'"
      using True u b c'(1) by (simp add: evict_size.simps [of p c])
    moreover have "pages c' \<subseteq>\<^sub>f pages c"
      using c'(4) fb(1) fmsubset_drop [of u "pages c"]
      by (auto intro: fmsubset_chain)
    moreover have "same_limits c c'"
      using fb(2) c'(3) by (rule same_limits_trans)
    moreover have "maxSize c > 0 \<longrightarrow> SizePages c' + Size p \<le> maxSize c"
      using c'(5) fb(2) by (simp add: same_limits_def)
    ultimately show ?thesis
      using c'(2) by blast
  qed
qed

text \<open>What a call of AddPage that passes the two guards does, step by step.\<close>

lemma AddPage_steps:
  assumes inv: "cache_inv c" and url: "URL p \<noteq> []"
    and fits: "\<not> (Size p > maxSize c \<and> maxSize c > 0)"
  shows "\<exists>c1 c2 us.
      evict_pages c = Inr c1 \<and> evict_size p c1 = Inr c2 \<and>
      AddPage p c = Inr (c2\<lparr>pages := fmupd (URL p) p (pages c2), urls := us @ [URL p]\<rparr>) \<and>
      cache_inv c1 \<and> same_limits c c1 \<and> pages c1 \<subseteq>\<^sub>f pages c \<and>
      cache_inv c2 \<and> same_limits c c2 \<and> pages c2 \<subseteq>\<^sub>f pages c1 \<and>
      (maxPages c > 0 \<longrightarrow> NumPages c1 < maxPages c) \<and>
      (maxSize c > 0 \<longrightarrow> SizePages c2 + Size p \<le> maxSize c) \<and>
      distinct us \<and> set us = set (urls c2) - {URL p}"
proof -
  from evict_pages_ok [OF inv] obtain c1 where c1:
    "evict_pages c = Inr c1" "cache_inv c1" "same_limits c c1" "pages c1 \<subseteq>\<^sub>f pages c"
    "maxPages c > 0 \<longrightarrow> NumPages c1 < maxPages c"
    by blast
  from fits c1(3) have "\<not> (Size p > maxSize c1 \<and> maxSize c1 > 0)"
    by (simp add: same_limits_def)
  from evict_size_ok [OF c1(2) this] obtain c2 where c2:
    "evict_size p c1 = Inr c2" "cache_inv c2" "same_limits c1 c2" "pages c2 \<subseteq>\<^sub>f pages c1"
    "maxSize c1 > 0 \<longrightarrow> SizePages c2 + Size p \<le> maxSize c1"
    by blast
  let ?d = "c2\<lparr>pages := fmupd (URL p) p (pages c2)\<rparr>"
  obtain c3 where c3: "removeURL (URL p) ?d = Inr c3"
    using removeURL_total by blast
  then obtain us where us: "c3 = ?d\<lparr>urls := us\<rparr>"
    by (auto simp: removeURL_Inr)
  from c2(2) have "distinct (urls ?d)" by (simp add: cache_inv_def)
  from removeURL_distinct [OF this c3] us
  have dus: "distinct us" "set us = set (urls c2) - {URL p}"
    by simp_all
  have "AddPage p c = Inr (c2\<lparr>pages := fmupd (URL p) p (pages c2), urls := us @ [URL p]\<rparr>)"
    using url fits c1(1) c2(1) c3 us by (auto simp: AddPage_def)
  moreover have "same_limits c c2"
    using c1(3) c2(3) by (rule same_limits_trans)
  moreover have "maxSize c > 0 \<longrightarrow> SizePages c2 + Size p \<le> maxSize c"
    using c2(5) c1(3) by (simp add: same_limits_def)
  ultimately show ?thesis
    using c1 c2 dus by blast
qed

subsection \<open>\<open>AddPage\<close> as a whole\<close>

lemma AddPage_noop:
  "URL p = [] \<or> (Size p > maxSize c \<and> maxSize c > 0) \<Longrightarrow> AddPage p c = Inr c"
  by (auto simp: AddPage_def)

lemma AddPage_ok:
  assumes inv: "cache_inv c"
  shows "\<exists>c'. AddPage p c = Inr c' \<and> cache_inv c' \<and> same_limits c c' \<and>
              (within_limits c \<longrightarrow> within_limits c')"
proof (cases "URL p = [] \<or> (Size p > maxSize c \<and> maxSize c > 0)")
  case True
  then have "AddPage p c = Inr c" by (rule AddPage_noop)
  with inv show ?thesis by (auto simp: same_limits_refl)
next
  case False
  then have url: "URL p \<noteq> []" and fits: "\<not> (Size p > maxSize c \<and> maxSize c > 0)"
    by auto
  from AddPage_steps [OF inv url fits] obtain c1 c2 us where s:
    "AddPage p c = Inr (c2\<lparr>pages := fmupd (URL p) p (pages c2), urls := us @ [URL p]\<rparr>)"
    "cache_inv c2" "same_limits c c1" "same_limits c c2" "pages c2 \<subseteq>\<^sub>f pages c1"
    "maxPages c > 0 \<longrightarrow> NumPages c1 < maxPages c"
    "maxSize c > 0 \<longrightarrow> SizePages c2 + Size p \<le> maxSize c"
    "distinct us" "set us = set (urls c2) - {URL p}"
    by blast
  let ?c' = "c2\<lparr>pages := fmupd (URL p) p (pages c2), urls := us @ [URL p]\<rparr>"
  have pg: "pages ?c' = fmupd (URL p) p (pages c2)" by simp
  have "cache_inv ?c'"
    using s(2,8,9) by (auto simp: cache_inv_def)
  moreover have "same_limits c ?c'"
    using s(4) by (simp add: same_limits_def)
  moreover have "NumPages ?c' \<le> maxPages ?c'" if "maxPages ?c' > 0"
  proof -
    have "NumPages ?c' \<le> NumPages c2 + 1"
      by (simp add: NumPages_fmupd [OF pg])
    also have "NumPages c2 \<le> NumPages c1"
      by (rule NumPages_mono [OF s(5)])
    finally show ?thesis
      using that s(4,6) by (simp add: same_limits_def)
  qed
  moreover have "SizePages ?c' \<le> maxSize ?c'" if "maxSize ?c' > 0"
  proof -
    have "SizePages ?c' \<le> SizePages c2 + Size p"
      by (simp add: SizePages_fmupd [OF pg] Size_nonneg split: option.splits)
    then show ?thesis
      using that s(4,7) by (simp add: same_limits_def)
  qed
  ultimately show ?thesis
    using s(1) by (auto simp: within_limits_def)
qed

lemma AddPages_ok:
  "cache_inv c \<Longrightarrow> within_limits c \<Longrightarrow>
   \<exists>c'. AddPages ps c = Inr c' \<and> cache_inv c' \<and> same_limits c c' \<and> within_limits c'"
proof (induction ps arbitrary: c)
  case Nil
  then show ?case by (simp add: same_limits_refl)
next
  case (Cons p ps)
  from AddPage_ok [OF Cons.prems(1), of p] Cons.prems(2) obtain c1 where c1:
    "AddPage p c = Inr c1" "cache_inv c1" "same_limits c c1" "within_limits c1"
    by blast
  from Cons.IH [OF c1(2,4)] obtain c' where
    "AddPages ps c1 = Inr c'" "cache_inv c'" "same_limits c1 c'" "within_limits c'"
    by blast
  with c1 show ?case
    by (auto intro: same_limits_trans)
qed

lemma cache_inv_empty: "pages c = fmempty \<Longrightarrow> urls c = [] \<Longrightarrow> cache_inv c"
  by (simp add: cache_inv_def)

lemma within_limits_empty: "pages c = fmempty \<Longrightarrow> within_limits c"
  by (simp add: within_limits_def NumPages_def SizePages_def)

lemma reachable_inv: "reachable c \<Longrightarrow> cache_inv c"
proof (induction rule: reachable.induct)
  case r_init
  show ?case by (simp add: cache_inv_def init_def)
next
  case (r_AddPage c p c')
  with AddPage_ok [of c p] show ?case by auto
next
  case (r_RemovePage c url c')
  then show ?case by (auto intro: RemovePage_inv)
qed (simp_all add: cache_inv_def SetMaxPages_def SetMaxSize_def SetTimeout_def ClearPages_def)

lemma evict_pages_frame: "evict_pages c = Inr c' \<Longrightarrow> same_limits c c'"
proof (induction c rule: evict_pages.induct)
  case (1 c)
  show ?case
  proof (cases "NumPages c \<ge> maxPages c \<and> maxPages c > 0")
    case False
    with "1.prems" show ?thesis
      by (auto simp: evict_pages.simps [of c] same_limits_refl)
  next
    case True
    with "1.prems" obtain u us b where
      "urls c = u # us" "RemovePage u c = Inr b" "evict_pages b = Inr c'"
      by (auto simp: evict_pages.simps [of c] split: list.splits sum.splits)
    with "1.IH" [OF True this(1,2)] RemovePage_frame [of u c b] show ?thesis
      by (auto intro: same_limits_trans)
  qed
qed

lemma evict_size_frame: "evict_size p c = Inr c' \<Longrightarrow> same_limits c c'"
proof (induction p c rule: evict_size.induct)
  case (1 p c)
  show ?case
  proof (cases "SizePages c + Size p > maxSize c \<and> maxSize c > 0")
    case False
    with "1.prems" show ?thesis
      by (auto simp: evict_size.simps [of p c] same_limits_refl)
  next
    case True
    with "1.prems" obtain u us b where
      "urls c = u # us" "RemovePage u c = Inr b" "evict_size p b = Inr c'"
      by (auto simp: evict_size.simps [of p c] split: list.splits sum.splits)
    with "1.IH" [OF True this(1,2)] RemovePage_frame [of u c b] show ?thesis
      by (auto intro: same_limits_trans)
  qed
qed

lemma AddPage_frame: "AddPage p c = Inr c' \<Longrightarrow> same_limits c c'"
proof (cases "URL p = [] \<or> (Size p > maxSize c \<and> maxSize c > 0)")
  case True
  assume "AddPage p c = Inr c'"
  with AddPage_noop [OF True] show ?thesis by (simp add: same_limits_refl)
next
  case False
  assume "AddPage p c = Inr c'"
  with False obtain c1 c2 c3 where
    "evict_pages c = Inr c1" "evict_size p c1 = Inr c2"
    "removeURL (URL p) (c2\<lparr>pages := fmupd (URL p) p (pages c2)\<rparr>) = Inr c3"
    "c' = c3\<lparr>urls := urls c3 @ [URL p]\<rparr>"
    by (auto simp: AddPage_def split: sum.splits)
  with evict_pages_frame [of c c1] evict_size_frame [of p c1 c2]
    removeURL_frame [of "URL p" "c2\<lparr>pages := fmupd (URL p) p (pages c2)\<rparr>" c3]
  show ?thesis
    by (simp add: same_limits_def)
qed

subsection \<open>Lookups and the timeout\<close>

lemma fmsubset_empty: "m \<subseteq>\<^sub>f fmempty \<Longrightarrow> m = fmempty"
  by (rule fmap_ext) (use fmsubset_dom' [of m fmempty] in \<open>auto simp: fmlookup_dom'_iff\<close>)

lemma SizePages_member: "fmlookup (pages c) u = Some q \<Longrightarrow> Size q \<le> SizePages c"
proof -
  assume l: "fmlookup (pages c) u = Some q"
  then have "u \<in> fmdom' (pages c)" by (simp add: fmlookup_dom'_iff)
  then have "Size (the (fmlookup (pages c) u)) \<le> SizePages c"
    unfolding SizePages_def by (intro member_le_sum) (simp_all add: Size_nonneg)
  with l show ?thesis by simp
qed

lemma GetPage_found_iff:
  "GetPage now url c = (Some p, True) \<longleftrightarrow>
     fmlookup (pages c) url = Some p \<and> (timeout c = 0 \<or> Since now (MadeAt p) < timeout c)"
  by (auto simp: GetPage_def split: option.splits)

lemma GetPage_cases:
  "GetPage now url c = (None, False) \<or> (\<exists>p. GetPage now url c = (Some p, True))"
  by (auto simp: GetPage_def split: option.splits)

lemma SetTimeout_in_range:
  "0 < t \<Longrightarrow> t \<le> 9223372036 \<Longrightarrow> timeout (SetTimeout t c) = t * Second"
  by (simp add: SetTimeout_def wrap64_def Second_def)

lemma SetTimeout_nonpositive: "t \<le> 0 \<Longrightarrow> timeout (SetTimeout t c) = 0"
  by (simp add: SetTimeout_def)

lemma GetPage_after_SetTimeout:
  assumes "t \<le> 9223372036"
  shows "GetPage now url (SetTimeout t c) = (Some p, True) \<longleftrightarrow>
     fmlookup (pages c) url = Some p \<and> (t \<le> 0 \<or> Since now (MadeAt p) < t * Second)"
proof (cases "t \<le> 0")
  case True
  then show ?thesis
    by (simp add: GetPage_found_iff SetTimeout_def)
next
  case False
  with assms have "timeout (SetTimeout t c) = t * Second" "0 < t * Second"
    by (simp_all add: SetTimeout_in_range Second_def)
  moreover have "pages (SetTimeout t c) = pages c"
    by (simp add: SetTimeout_def)
  ultimately show ?thesis
    using False by (auto simp: GetPage_found_iff)
qed

subsection \<open>What the entry table holds\<close>

lemma reachable_keys:
  "reachable c \<Longrightarrow> fmlookup (pages c) u = Some q \<Longrightarrow> URL q = u \<and> u \<noteq> []"
proof (induction arbitrary: u q rule: reachable.induct)
  case r_init
  then show ?case by (simp add: init_def)
next
  case (r_SetMaxPages c m)
  then show ?case by (simp add: SetMaxPages_def)
next
  case (r_SetMaxSize c m)
  then show ?case by (simp add: SetMaxSize_def)
next
  case (r_SetTimeout c t)
  then show ?case by (simp add: SetTimeout_def split: if_splits)
next
  case (r_AddPage c p c')
  show ?case
  proof (cases "URL p = [] \<or> (Size p > maxSize c \<and> maxSize c > 0)")
    case True
    with r_AddPage.hyps(2) have "c' = c" by (simp add: AddPage_noop)
    with r_AddPage show ?thesis by simp
  next
    case False
    then have url: "URL p \<noteq> []" and fits: "\<not> (Size p > maxSize c \<and> maxSize c > 0)"
      by auto
    from AddPage_steps [OF reachable_inv [OF r_AddPage.hyps(1)] url fits]
    obtain c1 :: cache and c2 us where s0:
      "AddPage p c = Inr (c2\<lparr>pages := fmupd (URL p) p (pages c2), urls := us @ [URL p]\<rparr>)"
      "pages c1 \<subseteq>\<^sub>f pages c" "pages c2 \<subseteq>\<^sub>f pages c1"
      by blast
    from s0(1) r_AddPage.hyps(2)
    have "c' = c2\<lparr>pages := fmupd (URL p) p (pages c2), urls := us @ [URL p]\<rparr>"
      by simp
    note s = this s0(2,3)
    show ?thesis
    proof (cases "u = URL p")
      case True
      with r_AddPage.prems s(1) url show ?thesis by simp
    next
      case False
      with r_AddPage.prems s(1) have l: "fmlookup (pages c2) u = Some q" by simp
      then have "u \<in> fmdom' (pages c2)" by (simp add: fmlookup_dom'_iff)
      from fmsubset_lookup [OF fmsubset_chain [OF s(3,2)] this] l
      have "fmlookup (pages c) u = Some q" by simp
      then show ?thesis by (rule r_AddPage.IH)
    qed
  qed
next
  case (r_RemovePage c url c')
  from RemovePage_frame [OF r_RemovePage.hyps(2)] r_RemovePage.prems
  have "fmlookup (pages c) u = Some q"
    by (auto split: if_splits)
  then show ?case by (rule r_RemovePage.IH)
next
  case (r_ClearPages c)
  then show ?case by (simp add: ClearPages_def)
qed

subsection \<open>A caller on its own\<close>

lemma calls_alone_total:
  assumes "reachable c"
  shows "(\<exists>c'. AddPage p c = Inr c') \<and> (\<exists>c'. RemovePage url c = Inr c') \<and>
         (\<exists>c1. evict_pages c = Inr c1 \<and>
               (\<not> (Size p > maxSize c \<and> maxSize c > 0) \<longrightarrow> (\<exists>c2. evict_size p c1 = Inr c2)))"
proof -
  from assms have inv: "cache_inv c" by (rule reachable_inv)
  from evict_pages_ok [OF inv] obtain c1 where c1:
    "evict_pages c = Inr c1" "cache_inv c1" "same_limits c c1"
    by blast
  have "\<exists>c2. evict_size p c1 = Inr c2" if "\<not> (Size p > maxSize c \<and> maxSize c > 0)"
  proof -
    from that c1(3) have "\<not> (Size p > maxSize c1 \<and> maxSize c1 > 0)"
      by (simp add: same_limits_def)
    from evict_size_ok [OF c1(2) this] show ?thesis by blast
  qed
  with c1(1) AddPage_ok [OF inv, of p] RemovePage_total [of url c] show ?thesis
    by blast
qed

lemma interleave_append:
  "interleave p q (xs @ ys) k =
     (case interleave p q xs k of Inl e \<Rightarrow> Inl e | Inr k' \<Rightarrow> interleave p q ys k')"
proof (induction xs arbitrary: k)
  case Nil
  show ?case by simp
next
  case (Cons x xs)
  obtain i j c where k: "k = (i, j, c)" by (cases k)
  show ?case
    unfolding k using Cons.IH
    by (auto split: sum.splits)
qed

lemma alone_pages_loop:
  "\<exists>n. interleave p q (replicate n True) (PagesTest, j, c) =
     (case evict_pages c of Inl e \<Rightarrow> Inl e | Inr c1 \<Rightarrow> Inr (SizeTest, j, c1))"
proof (induction c rule: evict_pages.induct)
  case (1 c)
  show ?case
  proof (cases "NumPages c \<ge> maxPages c \<and> maxPages c > 0")
    case False
    then have "evict_pages c = Inr c"
      by (auto simp: evict_pages.simps [of c])
    moreover from False have "interleave p q (replicate 1 True) (PagesTest, j, c) = Inr (SizeTest, j, c)"
      by auto
    ultimately show ?thesis
      by (metis sum.simps(6))
  next
    case True
    note guard = True
    show ?thesis
    proof (cases "urls c")
      case Nil
      with guard have "evict_pages c = Inl IndexOutOfRange"
        by (simp add: evict_pages.simps [of c])
      moreover from guard Nil
      have "interleave p q (replicate 2 True) (PagesTest, j, c) = Inl IndexOutOfRange"
        by (simp add: numeral_2_eq_2)
      ultimately show ?thesis
        by (metis sum.simps(5))
    next
      case (Cons u us)
      show ?thesis
      proof (cases "RemovePage u c")
        case (Inl e)
        with guard Cons have "evict_pages c = Inl e"
          by (simp add: evict_pages.simps [of c])
        moreover from guard Cons Inl
        have "interleave p q (replicate 3 True) (PagesTest, j, c) = Inl e"
          by (simp add: numeral_3_eq_3)
        ultimately show ?thesis
          by (metis sum.simps(5))
      next
        case (Inr b)
        from "1.IH" [OF guard Cons Inr] obtain n where n:
          "interleave p q (replicate n True) (PagesTest, j, b) =
             (case evict_pages b of Inl e \<Rightarrow> Inl e | Inr c1 \<Rightarrow> Inr (SizeTest, j, c1))"
          by blast
        from guard Cons Inr have "evict_pages c = evict_pages b"
          by (simp add: evict_pages.simps [of c])
        moreover from guard Cons Inr
        have "interleave p q (replicate 3 True) (PagesTest, j, c) = Inr (PagesTest, j, b)"
          by (simp add: numeral_3_eq_3)
        then have "interleave p q (replicate (3 + n) True) (PagesTest, j, c) =
            interleave p q (replicate n True) (PagesTest, j, b)"
          by (simp add: replicate_add interleave_append)
        ultimately show ?thesis
          using n by metis
      qed
    qed
  qed
qed

lemma alone_size_loop:
  "\<exists>n. interleave p q (replicate n True) (SizeTest, j, c) =
     (case evict_size p c of Inl e \<Rightarrow> Inl e | Inr c2 \<Rightarrow> Inr (Write, j, c2))"
proof (induction p c rule: evict_size.induct)
  case (1 p c)
  show ?case
  proof (cases "SizePages c + Size p > maxSize c \<and> maxSize c > 0")
    case False
    then have "evict_size p c = Inr c"
      by (auto simp: evict_size.simps [of p c])
    moreover from False have "interleave p q (replicate 1 True) (SizeTest, j, c) = Inr (Write, j, c)"
      by auto
    ultimately show ?thesis
      by (metis sum.simps(6))
  next
    case True
    note guard = True
    show ?thesis
    proof (cases "urls c")
      case Nil
      with guard have "evict_size p c = Inl IndexOutOfRange"
        by (simp add: evict_size.simps [of p c])
      moreover from guard Nil
      have "interleave p q (replicate 2 True) (SizeTest, j, c) = Inl IndexOutOfRange"
        by (simp add: numeral_2_eq_2)
      ultimately show ?thesis
        by (metis sum.simps(5))
    next
      case (Cons u us)
      show ?thesis
      proof (cases "RemovePage u c")
        case (Inl e)
        with guard Cons have "evict_size p c = Inl e"
          by (simp add: evict_size.simps [of p c])
        moreover from guard Cons Inl
        have "interleave p q (replicate 3 True) (SizeTest, j, c) = Inl e"
          by (simp add: numeral_3_eq_3)
        ultimately show ?thesis
          by (metis sum.simps(5))
      next
        case (Inr b)
        from "1.IH" [OF guard Cons Inr] obtain n where n:
          "interleave p q (replicate n True) (SizeTest, j, b) =
             (case evict_size p b of Inl e \<Rightarrow> Inl e | Inr c2 \<Rightarrow> Inr (Write, j, c2))"
          by blast
        from guard Cons Inr have "evict_size p c = evict_size p b"
          by (simp add: evict_size.simps [of p c])
        moreover from guard Cons Inr
        have "interleave p q (replicate 3 True) (SizeTest, j, c) = Inr (SizeTest, j, b)"
          by (simp add: numeral_3_eq_3)
        then have "interleave p q (replicate (3 + n) True) (SizeTest, j, c) =
            interleave p q (replicate n True) (SizeTest, j, b)"
          by (simp add: replicate_add interleave_append)
        ultimately show ?thesis
          using n by metis
      qed
    qed
  qed
qed


lemma AddPage_alone:
  "\<exists>n. interleave p q (replicate n True) (Guards, j, c) =
     (case AddPage p c of Inl e \<Rightarrow> Inl e | Inr c' \<Rightarrow> Inr (Returned, j, c'))"
proof (cases "URL p = [] \<or> (Size p > maxSize c \<and> maxSize c > 0)")
  case True
  then have "AddPage p c = Inr c" by (rule AddPage_noop)
  moreover from True have "interleave p q (replicate 1 True) (Guards, j, c) = Inr (Returned, j, c)"
    by auto
  ultimately show ?thesis
    by (metis sum.simps(6))
next
  case False
  then have g: "interleave p q (replicate 1 True) (Guards, j, c) = Inr (PagesTest, j, c)"
    by auto
  obtain n1 where n1: "interleave p q (replicate n1 True) (PagesTest, j, c) =
      (case evict_pages c of Inl e \<Rightarrow> Inl e | Inr c1 \<Rightarrow> Inr (SizeTest, j, c1))"
    using alone_pages_loop by blast
  have s1: "interleave p q (replicate (1 + n1) True) (Guards, j, c) =
      (case evict_pages c of Inl e \<Rightarrow> Inl e | Inr c1 \<Rightarrow> Inr (SizeTest, j, c1))"
    using g n1 by (simp only: replicate_add interleave_append sum.case)
  show ?thesis
  proof (cases "evict_pages c")
    case (Inl e)
    with False have "AddPage p c = Inl e"
      by (auto simp: AddPage_def)
    with s1 Inl show ?thesis
      by (metis sum.simps(5))
  next
    case (Inr c1)
    obtain n2 where n2: "interleave p q (replicate n2 True) (SizeTest, j, c1) =
        (case evict_size p c1 of Inl e \<Rightarrow> Inl e | Inr c2 \<Rightarrow> Inr (Write, j, c2))"
      using alone_size_loop by blast
    have s2: "interleave p q (replicate (1 + n1 + n2) True) (Guards, j, c) =
        (case evict_size p c1 of Inl e \<Rightarrow> Inl e | Inr c2 \<Rightarrow> Inr (Write, j, c2))"
      using s1 n2 Inr by (simp only: replicate_add [of "1 + n1" n2] interleave_append sum.case)
    show ?thesis
    proof (cases "evict_size p c1")
      case (Inl e)
      with False Inr have "AddPage p c = Inl e"
        by (auto simp: AddPage_def)
      with s2 Inl show ?thesis
        by (metis sum.simps(5))
    next
      case c2: (Inr c2)
      have w: "interleave p q (replicate 1 True) (Write, j, c2) =
          (case removeURL (URL p) (c2\<lparr>pages := fmupd (URL p) p (pages c2)\<rparr>) of
             Inl e \<Rightarrow> Inl e
           | Inr c3 \<Rightarrow> Inr (Returned, j, c3\<lparr>urls := urls c3 @ [URL p]\<rparr>))"
        by (simp split: sum.splits)
      have a: "AddPage p c =
          (case removeURL (URL p) (c2\<lparr>pages := fmupd (URL p) p (pages c2)\<rparr>) of
             Inl e \<Rightarrow> Inl e
           | Inr c3 \<Rightarrow> Inr (c3\<lparr>urls := urls c3 @ [URL p]\<rparr>))"
        using False Inr c2 by (auto simp: AddPage_def)
      have "interleave p q (replicate (1 + n1 + n2 + 1) True) (Guards, j, c) =
          interleave p q (replicate 1 True) (Write, j, c2)"
        using s2 c2 by (simp only: replicate_add [of "1 + n1 + n2" 1] interleave_append sum.case)
      with w a have "interleave p q (replicate (1 + n1 + n2 + 1) True) (Guards, j, c) =
          (case AddPage p c of Inl e \<Rightarrow> Inl e | Inr c' \<Rightarrow> Inr (Returned, j, c'))"
        by (simp split: sum.splits)
      then show ?thesis by blast
    qed
  qed
qed

section \<open>The claims\<close>

text \<open>
  C1. Bound invariants. Start from any empty cache, whatever its limits, and run any
  sequence of \<open>AddPage\<close> calls: the run does not panic, and at its end the cache holds at
  most \<open>maxPages\<close> pages when \<open>maxPages > 0\<close> and at most \<open>maxSize\<close> bytes when
  \<open>maxSize > 0\<close>. The sequence is arbitrary, so this is the state after each call.
\<close>

theorem bounds_after_AddPages:
  assumes "pages c0 = fmempty" and "urls c0 = []"
  shows "\<exists>c'. AddPages ps c0 = Inr c' \<and>
              (maxPages c0 > 0 \<longrightarrow> NumPages c' \<le> maxPages c0) \<and>
              (maxSize c0 > 0 \<longrightarrow> SizePages c' \<le> maxSize c0)"
proof -
  from assms have "cache_inv c0" and "within_limits c0"
    by (simp_all add: cache_inv_empty within_limits_empty)
  from AddPages_ok [OF this, of ps] show ?thesis
    by (auto simp: within_limits_def same_limits_def)
qed

theorem bounds_after_AddPages_witness:
  "pages (SetMaxSize 10 (SetMaxPages 2 init)) = fmempty \<and>
   urls (SetMaxSize 10 (SetMaxPages 2 init)) = [] \<and>
   (\<exists>c'. AddPages [doc ''a'' 6, doc ''b'' 3, doc ''c'' 4] (SetMaxSize 10 (SetMaxPages 2 init)) = Inr c' \<and>
         NumPages c' \<le> 2 \<and> SizePages c' \<le> 10)"
  using bounds_after_AddPages [of "SetMaxSize 10 (SetMaxPages 2 init)" "[doc ''a'' 6, doc ''b'' 3, doc ''c'' 4]"]
  by (simp add: init_def SetMaxPages_def SetMaxSize_def)

text \<open>
  C2. The order record is meant to list the identifiers oldest first, and an eviction to
  remove the oldest. \<open>removeIndex\<close> moves the last element into the gap, so the order is
  lost as soon as an element that is not the last one is removed. With \<open>maxPages = 3\<close>
  and pages a, b, c, d added in this order, the order record is c, b, d; adding e then
  evicts c, and b, which is older, stays in the cache.
\<close>

theorem fifo_broken_by_swap_remove:
  "urls (projr (AddPages [doc ''a'' 1, doc ''b'' 1, doc ''c'' 1, doc ''d'' 1] (SetMaxPages 3 init)))
     = [''c'', ''b'', ''d''] \<and>
   urls (projr (AddPages [doc ''a'' 1, doc ''b'' 1, doc ''c'' 1, doc ''d'' 1, doc ''e'' 1] (SetMaxPages 3 init)))
     = [''d'', ''b'', ''e''] \<and>
   GetPage 0 ''b'' (projr (AddPages [doc ''a'' 1, doc ''b'' 1, doc ''c'' 1, doc ''d'' 1, doc ''e'' 1] (SetMaxPages 3 init)))
     = (Some (doc ''b'' 1), True) \<and>
   GetPage 0 ''c'' (projr (AddPages [doc ''a'' 1, doc ''b'' 1, doc ''c'' 1, doc ''d'' 1, doc ''e'' 1] (SetMaxPages 3 init)))
     = (None, False)"
  by (simp add: cache_eval)

text \<open>
  C3. In every state the package can reach, the order record has no duplicate and its
  elements are exactly the keys of the entry table.
\<close>

theorem order_record_matches_table:
  "reachable c \<Longrightarrow> distinct (urls c) \<and> set (urls c) = fmdom' (pages c)"
  using reachable_inv [of c] by (simp add: cache_inv_def)

theorem order_record_matches_table_witness:
  "reachable (projr (AddPage (doc ''a'' 1) init)) \<and>
   distinct (urls (projr (AddPage (doc ''a'' 1) init))) \<and>
   set (urls (projr (AddPage (doc ''a'' 1) init))) = fmdom' (pages (projr (AddPage (doc ''a'' 1) init)))"
proof -
  have "AddPage (doc ''a'' 1) init = Inr (projr (AddPage (doc ''a'' 1) init))"
    by (simp add: cache_eval)
  then have r: "reachable (projr (AddPage (doc ''a'' 1) init))"
    by (rule r_AddPage [OF r_init])
  from r order_record_matches_table [OF r] show ?thesis by simp
qed

text \<open>
  C4. Overwriting. Let a reachable cache hold a page under the identifier of \<open>B\<close>, and
  let \<open>B\<close> pass the size guard. Then \<open>AddPage B\<close> returns; the entry table maps the
  identifier to \<open>B\<close>; the identifier is the last element of the order record, which has no
  duplicate; the count has not grown, and it is unchanged when neither loop has anything
  to evict; and \<open>GetPage\<close> returns \<open>B\<close> whenever \<open>B\<close> is not stale.
\<close>

theorem overwrite_existing:
  assumes r: "reachable c" and old: "fmlookup (pages c) (URL B) = Some A"
    and fits: "\<not> (Size B > maxSize c \<and> maxSize c > 0)"
  shows "\<exists>c'. AddPage B c = Inr c' \<and>
      fmlookup (pages c') (URL B) = Some B \<and>
      distinct (urls c') \<and> urls c' \<noteq> [] \<and> last (urls c') = URL B \<and>
      NumPages c' \<le> NumPages c \<and>
      (\<not> (NumPages c \<ge> maxPages c \<and> maxPages c > 0) \<and>
       \<not> (SizePages c + Size B > maxSize c \<and> maxSize c > 0) \<longrightarrow> NumPages c' = NumPages c) \<and>
      (timeout c = 0 \<or> Since now (MadeAt B) < timeout c \<longrightarrow>
         GetPage now (URL B) c' = (Some B, True))"
proof -
  have inv: "cache_inv c" using r by (rule reachable_inv)
  have url: "URL B \<noteq> []" using reachable_keys [OF r old] by simp
  have mem: "URL B \<in> fmdom' (pages c)" using old by (simp add: fmlookup_dom'_iff)
  from AddPage_steps [OF inv url fits] obtain c1 c2 us where s:
    "evict_pages c = Inr c1" "evict_size B c1 = Inr c2"
    "AddPage B c = Inr (c2\<lparr>pages := fmupd (URL B) B (pages c2), urls := us @ [URL B]\<rparr>)"
    "same_limits c c2" "pages c1 \<subseteq>\<^sub>f pages c" "pages c2 \<subseteq>\<^sub>f pages c1"
    "distinct us" "set us = set (urls c2) - {URL B}"
    by blast
  define c' where "c' = c2\<lparr>pages := fmupd (URL B) B (pages c2), urls := us @ [URL B]\<rparr>"
  have pg: "pages c' = fmupd (URL B) B (pages c2)" by (simp add: c'_def)
  have sub: "pages c2 \<subseteq>\<^sub>f pages c"
    using s(6,5) by (rule fmsubset_chain)
  have num: "NumPages c' \<le> NumPages c"
  proof (cases "URL B \<in> fmdom' (pages c2)")
    case True
    then show ?thesis
      using NumPages_mono [OF sub] by (simp add: NumPages_fmupd [OF pg])
  next
    case False
    with mem fmsubset_dom' [OF sub] have "fmdom' (pages c2) \<subset> fmdom' (pages c)"
      by auto
    then have "card (fmdom' (pages c2)) < card (fmdom' (pages c))"
      by (intro psubset_card_mono) simp_all
    then have "NumPages c2 < NumPages c"
      by (simp add: NumPages_def)
    moreover have "NumPages c' = NumPages c2 + 1"
      using False by (simp add: NumPages_fmupd [OF pg])
    ultimately show ?thesis by simp
  qed
  have same: "NumPages c' = NumPages c"
    if "\<not> (NumPages c \<ge> maxPages c \<and> maxPages c > 0)"
      and "\<not> (SizePages c + Size B > maxSize c \<and> maxSize c > 0)"
  proof -
    from that(1) have "evict_pages c = Inr c"
      by (auto simp: evict_pages.simps [of c])
    with s(1) have "c1 = c" by simp
    moreover from that(2) have "evict_size B c = Inr c"
      by (auto simp: evict_size.simps [of B c])
    ultimately have "c2 = c" using s(2) by simp
    with mem show ?thesis by (simp add: NumPages_fmupd [OF pg])
  qed
  have "timeout c' = timeout c"
    using s(4) by (simp add: c'_def same_limits_def)
  then have "GetPage now (URL B) c' = (Some B, True)"
    if "timeout c = 0 \<or> Since now (MadeAt B) < timeout c"
    using that by (simp add: GetPage_found_iff pg)
  moreover have "distinct (urls c')" "urls c' \<noteq> []" "last (urls c') = URL B"
    using s(7,8) by (simp_all add: c'_def)
  moreover have "fmlookup (pages c') (URL B) = Some B"
    by (simp add: pg)
  moreover have "AddPage B c = Inr c'"
    using s(3) by (simp add: c'_def)
  ultimately show ?thesis
    using num same by blast
qed

theorem overwrite_existing_witness:
  "reachable (projr (AddPage (doc ''x'' 1) init)) \<and>
   fmlookup (pages (projr (AddPage (doc ''x'' 1) init))) (URL \<lparr>URL = ''x'', Raw = ''new'', Bytes = 3, MadeAt = 0\<rparr>)
     = Some (doc ''x'' 1) \<and>
   \<not> (Size \<lparr>URL = ''x'', Raw = ''new'', Bytes = 3, MadeAt = 0\<rparr> > maxSize (projr (AddPage (doc ''x'' 1) init)) \<and>
      maxSize (projr (AddPage (doc ''x'' 1) init)) > 0) \<and>
   (\<exists>c'. AddPage \<lparr>URL = ''x'', Raw = ''new'', Bytes = 3, MadeAt = 0\<rparr> (projr (AddPage (doc ''x'' 1) init)) = Inr c' \<and>
      fmlookup (pages c') ''x'' = Some \<lparr>URL = ''x'', Raw = ''new'', Bytes = 3, MadeAt = 0\<rparr> \<and>
      last (urls c') = ''x'' \<and> NumPages c' = 1 \<and>
      GetPage 0 ''x'' c' = (Some \<lparr>URL = ''x'', Raw = ''new'', Bytes = 3, MadeAt = 0\<rparr>, True))"
proof -
  let ?c = "projr (AddPage (doc ''x'' 1) init)"
  let ?B = "\<lparr>URL = ''x'', Raw = ''new'', Bytes = 3, MadeAt = 0\<rparr>"
  have e: "AddPage (doc ''x'' 1) init = Inr ?c"
    by (simp add: cache_eval)
  have r: "reachable ?c"
    using e by (rule r_AddPage [OF r_init])
  have old: "fmlookup (pages ?c) (URL ?B) = Some (doc ''x'' 1)"
    by (simp add: cache_eval)
  have fits: "\<not> (Size ?B > maxSize ?c \<and> maxSize ?c > 0)"
    by (simp add: cache_eval)
  have n: "NumPages ?c = 1" "maxPages ?c = 0" "maxSize ?c = 0" "timeout ?c = 0"
    by (simp_all add: cache_eval)
  from overwrite_existing [OF r old fits, of 0] obtain c' where c':
    "AddPage ?B ?c = Inr c'" "fmlookup (pages c') (URL ?B) = Some ?B"
    "last (urls c') = URL ?B"
    "\<not> (NumPages ?c \<ge> maxPages ?c \<and> maxPages ?c > 0) \<and>
     \<not> (SizePages ?c + Size ?B > maxSize ?c \<and> maxSize ?c > 0) \<longrightarrow> NumPages c' = NumPages ?c"
    "timeout ?c = 0 \<or> Since 0 (MadeAt ?B) < timeout ?c \<longrightarrow> GetPage 0 (URL ?B) c' = (Some ?B, True)"
    by blast
  from c'(4) n have "NumPages c' = 1" by simp
  moreover from c'(5) n have "GetPage 0 ''x'' c' = (Some ?B, True)" by simp
  moreover from c'(2,3) have "fmlookup (pages c') ''x'' = Some ?B" "last (urls c') = ''x''"
    by simp_all
  ultimately have "\<exists>c'. AddPage ?B ?c = Inr c' \<and> fmlookup (pages c') ''x'' = Some ?B \<and>
      last (urls c') = ''x'' \<and> NumPages c' = 1 \<and> GetPage 0 ''x'' c' = (Some ?B, True)"
    using c'(1) by blast
  with r old fits show ?thesis by blast
qed

text \<open>
  The claim as it is written fails in three ways: at its page limit the cache evicts
  before it overwrites, and the count drops from 2 to 1; a \<open>B\<close> larger than \<open>maxSize\<close>
  is not stored, and the old page is returned; a \<open>B\<close> that is already stale is stored
  and not returned.
\<close>

theorem overwrite_counterexample:
  "fmlookup (pages (projr (AddPages [doc ''a'' 1, doc ''x'' 1] (SetMaxPages 2 init)))) ''x''
     = Some (doc ''x'' 1) \<and>
   NumPages (projr (AddPages [doc ''a'' 1, doc ''x'' 1] (SetMaxPages 2 init))) = 2 \<and>
   NumPages (projr (AddPage (doc ''x'' 2)
      (projr (AddPages [doc ''a'' 1, doc ''x'' 1] (SetMaxPages 2 init))))) = 1 \<and>
   GetPage 0 ''x'' (projr (AddPage (doc ''x'' 1) (SetMaxSize 10 init))) = (Some (doc ''x'' 1), True) \<and>
   GetPage 0 ''x'' (projr (AddPage (doc ''x'' 11)
      (projr (AddPage (doc ''x'' 1) (SetMaxSize 10 init))))) = (Some (doc ''x'' 1), True) \<and>
   GetPage (2 * Second) ''x'' (projr (AddPage (doc ''x'' 2)
      (projr (AddPage (doc ''x'' 1) (SetTimeout 1 init))))) = (None, False)"
  by (simp add: cache_eval insert_Diff_if)

text \<open>
  C5. A page with an empty identifier, or one larger than a positive \<open>maxSize\<close>, is
  silently not added: \<open>AddPage\<close> returns without a panic and the whole state, hence the
  entry table, the order record, the count and the total size, is what it was.
\<close>

theorem AddPage_silent_noop:
  "URL p = [] \<or> (Size p > maxSize c \<and> maxSize c > 0) \<Longrightarrow> AddPage p c = Inr c"
  by (rule AddPage_noop)

theorem AddPage_silent_noop_witness:
  "(URL (doc [] 5) = [] \<or> (Size (doc [] 5) > maxSize init \<and> maxSize init > 0)) \<and>
   AddPage (doc [] 5) init = Inr init \<and>
   (URL (doc ''big'' 150) = [] \<or>
      (Size (doc ''big'' 150) > maxSize (SetMaxSize 100 init) \<and> maxSize (SetMaxSize 100 init) > 0)) \<and>
   AddPage (doc ''big'' 150) (SetMaxSize 100 init) = Inr (SetMaxSize 100 init)"
  using AddPage_silent_noop [of "doc [] 5" init]
        AddPage_silent_noop [of "doc ''big'' 150" "SetMaxSize 100 init"]
  by (simp add: Size_def SetMaxSize_def)

text \<open>
  C6. \<open>GetPage\<close> returns a page exactly when it is in the entry table and the stored
  \<open>timeout\<close> is 0 or the time since the page was made is less than it (lemma
  \<open>GetPage_found_iff\<close>), and for up to 9223372036 seconds that is what the claim says
  (lemma \<open>GetPage_after_SetTimeout\<close>). But \<open>SetTimeout\<close> multiplies the seconds by
  \<open>time.Second\<close> in 64 bits: for a timeout of 10000000000 seconds, which a 64-bit
  \<open>int\<close> holds, the product wraps around to a negative duration, and then \<open>GetPage\<close>
  finds no page at all. A page made one second ago is in the entry table and is not
  returned, although one second is less than the timeout.
\<close>

theorem timeout_wraps_around:
  "timeout (SetTimeout 10000000000 init) = - 8446744073709551616 \<and>
   fmlookup (pages (projr (AddPage (doc ''x'' 5) (SetTimeout 10000000000 init)))) ''x''
     = Some (doc ''x'' 5) \<and>
   Since Second (MadeAt (doc ''x'' 5)) = Second \<and>
   GetPage Second ''x'' (projr (AddPage (doc ''x'' 5) (SetTimeout 10000000000 init)))
     = (None, False)"
  by (simp add: cache_eval)

text \<open>
  C7. Byte-size eviction. In an empty cache with \<open>maxSize = 10\<close> and no timeout, add a
  page of size 6 under a and then a page of size 6 under b. The first call stores a; in
  the second call a is gone when the two loops are over, before b is written; at the
  end a is not found and b is.
\<close>

theorem byte_size_eviction:
  assumes a: "URL a = ''a''" "Bytes a = 6" and b: "URL b = ''b''" "Bytes b = 6"
    and c0: "pages c0 = fmempty" "urls c0 = []" "maxSize c0 = 10" "timeout c0 = 0"
  shows "\<exists>c1 d1 d2 c2.
      AddPage a c0 = Inr c1 \<and> GetPage now ''a'' c1 = (Some a, True) \<and>
      evict_pages c1 = Inr d1 \<and> evict_size b d1 = Inr d2 \<and> fmlookup (pages d2) ''a'' = None \<and>
      AddPage b c1 = Inr c2 \<and>
      GetPage now ''a'' c2 = (None, False) \<and> GetPage now ''b'' c2 = (Some b, True)"
proof -
  have inv0: "cache_inv c0"
    using c0 by (simp add: cache_inv_empty)
  have "URL a \<noteq> []" "\<not> (Size a > maxSize c0 \<and> maxSize c0 > 0)"
    using a c0 by (simp_all add: Size_def)
  from AddPage_steps [OF inv0 this] obtain e1 e2 us1 where s1:
    "AddPage a c0 = Inr (e2\<lparr>pages := fmupd (URL a) a (pages e2), urls := us1 @ [URL a]\<rparr>)"
    "same_limits c0 e2"
    by blast
  define c1 where "c1 = e2\<lparr>pages := fmupd (URL a) a (pages e2), urls := us1 @ [URL a]\<rparr>"
  have A1: "AddPage a c0 = Inr c1"
    using s1(1) by (simp add: c1_def)
  have la: "fmlookup (pages c1) ''a'' = Some a"
    using a by (simp add: c1_def)
  have lim1: "maxSize c1 = 10" "timeout c1 = 0"
    using s1(2) c0 by (simp_all add: c1_def same_limits_def)
  have inv1: "cache_inv c1"
    using AddPage_ok [OF inv0, of a] A1 by auto
  have "URL b \<noteq> []" "\<not> (Size b > maxSize c1 \<and> maxSize c1 > 0)"
    using b lim1 by (simp_all add: Size_def)
  from AddPage_steps [OF inv1 this] obtain d1 d2 us2 where s2:
    "evict_pages c1 = Inr d1" "evict_size b d1 = Inr d2"
    "AddPage b c1 = Inr (d2\<lparr>pages := fmupd (URL b) b (pages d2), urls := us2 @ [URL b]\<rparr>)"
    "same_limits c1 d2" "pages d1 \<subseteq>\<^sub>f pages c1" "pages d2 \<subseteq>\<^sub>f pages d1"
    "maxSize c1 > 0 \<longrightarrow> SizePages d2 + Size b \<le> maxSize c1"
    by blast
  define c2 where "c2 = d2\<lparr>pages := fmupd (URL b) b (pages d2), urls := us2 @ [URL b]\<rparr>"
  have sub: "pages d2 \<subseteq>\<^sub>f pages c1"
    using s2(6,5) by (rule fmsubset_chain)
  have gone: "fmlookup (pages d2) ''a'' = None"
  proof (rule ccontr)
    assume "fmlookup (pages d2) ''a'' \<noteq> None"
    then obtain q where q: "fmlookup (pages d2) ''a'' = Some q" by auto
    then have "''a'' \<in> fmdom' (pages d2)" by (simp add: fmlookup_dom'_iff)
    from fmsubset_lookup [OF sub this] q la have "q = a" by simp
    with SizePages_member [OF q] a have "6 \<le> SizePages d2" by (simp add: Size_def)
    with s2(7) lim1 b show False by (simp add: Size_def)
  qed
  have "timeout c2 = 0"
    using s2(4) lim1 by (simp add: c2_def same_limits_def)
  then have "GetPage now ''a'' c2 = (None, False)" "GetPage now ''b'' c2 = (Some b, True)"
    using gone b by (simp_all add: GetPage_def c2_def)
  moreover have "GetPage now ''a'' c1 = (Some a, True)"
    using la lim1 by (simp add: GetPage_def)
  moreover have "AddPage b c1 = Inr c2"
    using s2(3) by (simp add: c2_def)
  ultimately show ?thesis
    using A1 s2(1,2) gone by blast
qed

theorem byte_size_eviction_witness:
  "URL (doc ''a'' 6) = ''a'' \<and> Bytes (doc ''a'' 6) = 6 \<and> URL (doc ''b'' 6) = ''b'' \<and>
   Bytes (doc ''b'' 6) = 6 \<and> pages (SetMaxSize 10 init) = fmempty \<and>
   urls (SetMaxSize 10 init) = [] \<and> maxSize (SetMaxSize 10 init) = 10 \<and>
   timeout (SetMaxSize 10 init) = 0 \<and>
   (\<exists>c1 d1 d2 c2.
      AddPage (doc ''a'' 6) (SetMaxSize 10 init) = Inr c1 \<and>
      GetPage 7 ''a'' c1 = (Some (doc ''a'' 6), True) \<and>
      evict_pages c1 = Inr d1 \<and> evict_size (doc ''b'' 6) d1 = Inr d2 \<and>
      fmlookup (pages d2) ''a'' = None \<and>
      AddPage (doc ''b'' 6) c1 = Inr c2 \<and>
      GetPage 7 ''a'' c2 = (None, False) \<and> GetPage 7 ''b'' c2 = (Some (doc ''b'' 6), True))"
  using byte_size_eviction [of "doc ''a'' 6" "doc ''b'' 6" "SetMaxSize 10 init" 7]
  by (simp add: init_def SetMaxSize_def)

text \<open>
  C8. Totality. A call that runs on its own returns in every reachable state (lemma
  \<open>calls_alone_total\<close>), and the steps of one caller taken without interruption are
  \<open>AddPage\<close> (lemma \<open>AddPage_alone\<close>). But both loops of \<open>AddPage\<close> run before
  \<open>mu.Lock()\<close>, so another caller can run between the test of a loop condition and the
  read of \<open>urls[0]\<close>. Take \<open>maxPages = 1\<close> and one page in the cache, where a call of
  \<open>AddPage\<close> on its own returns. Two callers both pass the guards and find the cache
  full; the first reads \<open>urls[0]\<close> and removes that page; the second then reads
  \<open>urls[0]\<close> of the empty order record, and the program panics.
\<close>

theorem concurrent_AddPage_panics:
  "urls (projr (AddPage (doc ''a'' 1) (SetMaxPages 1 init))) = [''a''] \<and>
   AddPage (doc ''b'' 1) (projr (AddPage (doc ''a'' 1) (SetMaxPages 1 init))) \<noteq> Inl IndexOutOfRange \<and>
   AddPage (doc ''c'' 1) (projr (AddPage (doc ''a'' 1) (SetMaxPages 1 init))) \<noteq> Inl IndexOutOfRange \<and>
   interleave (doc ''b'' 1) (doc ''c'' 1) [True, True, False, False, True, True]
     (Guards, Guards, projr (AddPage (doc ''a'' 1) (SetMaxPages 1 init)))
     = Inr (PagesTest, PagesHead, ClearPages (SetMaxPages 1 init)) \<and>
   interleave (doc ''b'' 1) (doc ''c'' 1) [True, True, False, False, True, True, False]
     (Guards, Guards, projr (AddPage (doc ''a'' 1) (SetMaxPages 1 init)))
     = Inl IndexOutOfRange"
  by (simp add: cache_eval fmdrop_fmupd_same)

text \<open>
  C9. \<open>AddPage\<close> does not run under one exclusive lock. In a cache that holds its one
  allowed page, adding another page makes these calls on the mutex: the shared lock of
  \<open>NumPages\<close>, the exclusive lock of the exported \<open>RemovePage\<close> for the eviction, the
  shared locks of \<open>NumPages\<close> and \<open>SizePages\<close> again, and only then the exclusive lock
  of \<open>AddPage\<close> itself.
\<close>

theorem AddPage_mutex_calls:
  "RemovePage_mu = [Lock, Unlock] \<and> ClearPages_mu = [Lock, Unlock] \<and>
   GetPage_mu = [RLock, RUnlock] \<and> NumPages_mu = [RLock, RUnlock] \<and>
   SizePages_mu = [RLock, RUnlock] \<and>
   urls (projr (AddPage (doc ''a'' 1) (SetMaxPages 1 init))) = [''a''] \<and>
   AddPage_mu (doc ''b'' 1) (projr (AddPage (doc ''a'' 1) (SetMaxPages 1 init))) =
     [RLock, RUnlock, Lock, Unlock, RLock, RUnlock, RLock, RUnlock, Lock, Unlock]"
  by (simp add: cache_eval AddPage_mu_def evict_pages_mu.simps evict_size_mu.simps
        NumPages_mu_def SizePages_mu_def RemovePage_mu_def ClearPages_mu_def GetPage_mu_def)

text \<open>
  C10. \<open>AddPage\<close>, \<open>RemovePage\<close> and \<open>ClearPages\<close> leave \<open>maxPages\<close>, \<open>maxSize\<close> and
  \<open>timeout\<close> as they were, in every state and for every input; each setter changes its
  own limit and nothing else. \<open>GetPage\<close>, \<open>NumPages\<close> and \<open>SizePages\<close> return no state.
\<close>

theorem limits_only_changed_by_setters:
  "(AddPage p c = Inr c' \<longrightarrow>
      maxPages c' = maxPages c \<and> maxSize c' = maxSize c \<and> timeout c' = timeout c) \<and>
   (RemovePage url c = Inr c'' \<longrightarrow>
      maxPages c'' = maxPages c \<and> maxSize c'' = maxSize c \<and> timeout c'' = timeout c) \<and>
   maxPages (ClearPages c) = maxPages c \<and> maxSize (ClearPages c) = maxSize c \<and>
   timeout (ClearPages c) = timeout c \<and>
   SetMaxPages m c = c\<lparr>maxPages := m\<rparr> \<and> SetMaxSize m c = c\<lparr>maxSize := m\<rparr> \<and>
   SetTimeout t c = c\<lparr>timeout := (if t \<le> 0 then 0 else wrap64 (t * Second))\<rparr>"
  using AddPage_frame [of p c c'] RemovePage_frame [of url c c'']
  by (auto simp: same_limits_def ClearPages_def SetMaxPages_def SetMaxSize_def SetTimeout_def)

theorem limits_only_changed_by_setters_witness:
  "AddPage (doc ''a'' 1) (SetTimeout 3 (SetMaxPages 1 init))
     = Inr (projr (AddPage (doc ''a'' 1) (SetTimeout 3 (SetMaxPages 1 init)))) \<and>
   maxPages (projr (AddPage (doc ''a'' 1) (SetTimeout 3 (SetMaxPages 1 init)))) = 1 \<and>
   timeout (projr (AddPage (doc ''a'' 1) (SetTimeout 3 (SetMaxPages 1 init)))) = 3000000000 \<and>
   RemovePage ''a'' (SetTimeout 3 (SetMaxPages 1 init))
     = Inr (projr (RemovePage ''a'' (SetTimeout 3 (SetMaxPages 1 init)))) \<and>
   maxPages (projr (RemovePage ''a'' (SetTimeout 3 (SetMaxPages 1 init)))) = 1"
proof -
  let ?c = "SetTimeout 3 (SetMaxPages 1 init)"
  have a: "AddPage (doc ''a'' 1) ?c = Inr (projr (AddPage (doc ''a'' 1) ?c))"
    by (simp add: cache_eval)
  have b: "RemovePage ''a'' ?c = Inr (projr (RemovePage ''a'' ?c))"
    by (simp add: cache_eval)
  have c: "maxPages ?c = 1" "timeout ?c = 3000000000"
    by (simp_all add: cache_eval)
  from limits_only_changed_by_setters [of "doc ''a'' 1" ?c "projr (AddPage (doc ''a'' 1) ?c)"
      "''a''" "projr (RemovePage ''a'' ?c)"] a b c
  show ?thesis by simp
qed

end
